theory Spec2Isabelle
  imports Main
begin

section \<open>The slot pool \<open>Vault<ElementData, COUNT>\<close>\<close>

text \<open>
  The pool is a \<open>std::array<Element, COUNT>\<close>; it is modelled as a list of elements whose
  length is \<open>COUNT\<close>. An element carries its payload, its mutex and its occupancy flag. The
  mutex is a boolean: \<open>True\<close> while some \<open>std::unique_lock\<close> owns it. All operations are
  modelled for one calling thread, so an atomic operation is its sequential meaning.
\<close>

record 'a Element =
  data :: 'a
  access :: bool
  inUse :: bool

text \<open>
  What a call can end in instead of a result. \<open>OutOfRange\<close> is the \<open>std::out_of_range\<close>
  thrown by \<open>std::array::at\<close>, \<open>EmptyAccess\<close> the \<open>std::out_of_range {"no such data"}\<close>
  thrown by \<open>ElementView::operator()\<close>. The other three are undefined behaviour of the
  C++ program: reading \<open>ref->inUse\<close> through a null \<open>ref\<close>, locking a \<open>std::mutex\<close> the
  calling thread already owns (the call does not return), and dereferencing an iterator
  that is not inside the array.
\<close>

datatype error = OutOfRange | EmptyAccess | NullDereference | SelfDeadlock | PastTheEnd

text \<open>
  An \<open>ElementView\<close> holds \<open>ref\<close>, a pointer to an element of the array (its index) or
  \<open>nullptr\<close>, and a \<open>std::unique_lock\<close> that owns the mutex of that element exactly when the
  view was built from an element.
\<close>

record ElementView =
  ref :: "nat option"

record iterator =
  iter :: nat

subsection \<open>Library operations used by the pool\<close>

text \<open>\<open>std::find_if\<close> over a whole range: the position of the first element that satisfies
  the predicate, the length of the range (its \<open>end()\<close>) when there is none.\<close>

primrec find_if :: "('e \<Rightarrow> bool) \<Rightarrow> 'e list \<Rightarrow> nat" where
  "find_if p [] = 0"
| "find_if p (x # xs) = (if p x then 0 else Suc (find_if p xs))"

definition find_if_not :: "('e \<Rightarrow> bool) \<Rightarrow> 'e list \<Rightarrow> nat" where
  "find_if_not p xs = find_if (\<lambda>x. \<not> p x) xs"

text \<open>\<open>compare_exchange_strong\<close> on a boolean cell: the success flag and the cell's new
  value. \<open>compare_exchange_weak\<close> may in addition fail spuriously, leaving the cell as it
  is; whether it does is the first argument.\<close>

definition compare_exchange_strong :: "bool \<Rightarrow> bool \<Rightarrow> bool \<Rightarrow> bool \<times> bool" where
  "compare_exchange_strong cell expected desired =
     (if cell = expected then (True, desired) else (False, cell))"

definition compare_exchange_weak :: "bool \<Rightarrow> bool \<Rightarrow> bool \<Rightarrow> bool \<Rightarrow> bool \<times> bool" where
  "compare_exchange_weak spurious cell expected desired =
     (if spurious then (False, cell) else compare_exchange_strong cell expected desired)"

text \<open>\<open>std::exchange\<close> on a boolean cell: the old value and the cell's new value.\<close>

definition exchange :: "bool \<Rightarrow> bool \<Rightarrow> bool \<times> bool" where
  "exchange cell new_value = (cell, new_value)"

text \<open>\<open>std::mutex::lock\<close> and \<open>unlock\<close> on the mutex of element \<open>i\<close>.\<close>

definition mutex_lock :: "nat \<Rightarrow> 'a Element list \<Rightarrow> error + 'a Element list" where
  "mutex_lock i s =
     (if access (s ! i) then Inl SelfDeadlock else Inr (s[i := (s ! i)\<lparr>access := True\<rparr>]))"

definition mutex_unlock :: "nat \<Rightarrow> 'a Element list \<Rightarrow> 'a Element list" where
  "mutex_unlock i s = s[i := (s ! i)\<lparr>access := False\<rparr>]"

definition set_inUse :: "nat \<Rightarrow> bool \<Rightarrow> 'a Element list \<Rightarrow> 'a Element list" where
  "set_inUse i b s = s[i := (s ! i)\<lparr>inUse := b\<rparr>]"

subsection \<open>ElementView\<close>

text \<open>The default constructor, the constructor from an element (which locks the element's
  mutex) and the destructor (which unlocks it, through the \<open>unique_lock\<close>).\<close>

definition ElementView_default :: ElementView where
  "ElementView_default = \<lparr>ref = None\<rparr>"

definition ElementView_ctor :: "nat \<Rightarrow> 'a Element list \<Rightarrow> 'a Element list \<times> (error + ElementView)" where
  "ElementView_ctor i s =
     (case mutex_lock i s of
        Inl e \<Rightarrow> (s, Inl e)
      | Inr s' \<Rightarrow> (s', Inr \<lparr>ref = Some i\<rparr>))"

definition ElementView_dtor :: "ElementView \<Rightarrow> 'a Element list \<Rightarrow> 'a Element list" where
  "ElementView_dtor v s = (case ref v of None \<Rightarrow> s | Some i \<Rightarrow> mutex_unlock i s)"

text \<open>The expression \<open>ref->inUse\<close>.\<close>

definition ref_inUse :: "ElementView \<Rightarrow> 'a Element list \<Rightarrow> error + bool" where
  "ref_inUse v s = (case ref v of None \<Rightarrow> Inl NullDereference | Some i \<Rightarrow> Inr (inUse (s ! i)))"

text \<open>\<open>operator()\<close>: \<open>if (!ref->inUse) throw std::out_of_range {"no such data"}; return ref->data;\<close>\<close>

definition operator_call :: "ElementView \<Rightarrow> 'a Element list \<Rightarrow> error + 'a" where
  "operator_call v s =
     (case ref_inUse v s of
        Inl e \<Rightarrow> Inl e
      | Inr u \<Rightarrow> if \<not> u then Inl EmptyAccess else Inr (data (s ! the (ref v))))"

text \<open>\<open>operator bool\<close>: \<open>return ref && ref->inUse;\<close>\<close>

definition operator_bool :: "ElementView \<Rightarrow> 'a Element list \<Rightarrow> error + bool" where
  "operator_bool v s = (if ref v = None then Inr False else ref_inUse v s)"

subsection \<open>Facts about the library operations\<close>

lemma find_if_le: "find_if p xs \<le> length xs"
  by (induction xs) auto

lemma find_if_sat: "find_if p xs < length xs \<Longrightarrow> p (xs ! find_if p xs)"
  by (induction xs) (auto split: if_splits)

lemma find_if_least: "j < find_if p xs \<Longrightarrow> \<not> p (xs ! j)"
  by (induction xs arbitrary: j) (auto split: if_splits simp: nth_Cons')

lemma find_if_end: "find_if p xs = length xs \<longleftrightarrow> (\<forall>x\<in>set xs. \<not> p x)"
  by (induction xs) auto

lemma find_if_unique:
  "i < length xs \<Longrightarrow> p (xs ! i) \<Longrightarrow> \<forall>j<i. \<not> p (xs ! j) \<Longrightarrow> find_if p xs = i"
  by (metis find_if_least find_if_sat find_if_le linorder_neqE_nat order_le_less_trans not_less)

lemma ElementView_ctor_Inr:
  "ElementView_ctor i s = (s1, Inr v) \<Longrightarrow>
     s1 = s[i := (s ! i)\<lparr>access := True\<rparr>] \<and> v = \<lparr>ref = Some i\<rparr> \<and> \<not> access (s ! i)"
  by (auto simp: ElementView_ctor_def mutex_lock_def split: if_splits)

lemma allocate_exchange_succeeds:
  assumes "find_if_not inUse s \<noteq> length s"
    and "ElementView_ctor (find_if_not inUse s) s = (s1, Inr v)"
  shows "compare_exchange_strong (inUse (s1 ! find_if_not inUse s)) False True = (True, True)"
proof -
  let ?i = "find_if_not inUse s"
  have lt: "?i < length s"
    using assms(1) find_if_le [of "\<lambda>x. \<not> inUse x" s] by (simp add: find_if_not_def)
  then have "\<not> inUse (s ! ?i)"
    using find_if_sat [of "\<lambda>x. \<not> inUse x" s] by (simp add: find_if_not_def)
  moreover have "s1 = s[?i := (s ! ?i)\<lparr>access := True\<rparr>]"
    using ElementView_ctor_Inr [OF assms(2)] by simp
  ultimately show ?thesis
    using lt by (simp add: compare_exchange_strong_def)
qed

subsection \<open>The pool's operations, \<open>LOCK_FREE\<close> variant\<close>

definition capacity :: "'a Element list \<Rightarrow> nat" where
  "capacity s = length s"

text \<open>\<open>view(idx)\<close>: \<open>return ElementView {storage.at(idx)};\<close>\<close>

definition view :: "nat \<Rightarrow> 'a Element list \<Rightarrow> 'a Element list \<times> (error + ElementView)" where
  "view idx s = (if length s \<le> idx then (s, Inl OutOfRange) else ElementView_ctor idx s)"

text \<open>\<open>allocate()\<close>: the \<open>do ... while (true)\<close> loop is the recursion; the view built in an
  iteration whose exchange fails is destroyed before the next iteration.\<close>

function allocate :: "'a Element list \<Rightarrow> 'a Element list \<times> (error + ElementView \<times> bool)" where
  "allocate s =
     (let i = find_if_not inUse s in
      if i = length s then (s, Inr (ElementView_default, False))
      else
        case ElementView_ctor i s of
          (s1, Inl e) \<Rightarrow> (s1, Inl e)
        | (s1, Inr v) \<Rightarrow>
            (case compare_exchange_strong (inUse (s1 ! i)) False True of
               (ok, b) \<Rightarrow>
                 if ok then (set_inUse i b s1, Inr (v, True))
                 else allocate (ElementView_dtor v (set_inUse i b s1))))"
  by pat_completeness auto

text \<open>The loop can only be re-entered after a failed exchange, and with one calling thread
  the exchange on a slot just seen free does not fail.\<close>

termination allocate
proof (relation "{}")
  show "wf {}" by simp
qed (metis allocate_exchange_succeeds prod.inject)

declare allocate.simps [simp del]

text \<open>\<open>deallocate(size_t idx)\<close>\<close>

definition deallocate :: "nat \<Rightarrow> 'a Element list \<Rightarrow> 'a Element list \<times> (error + bool)" where
  "deallocate idx s =
     (if length s \<le> idx then (s, Inl OutOfRange)
      else
        case ElementView_ctor idx s of
          (s1, Inl e) \<Rightarrow> (s1, Inl e)
        | (s1, Inr e) \<Rightarrow>
            (case compare_exchange_strong (inUse (s1 ! idx)) True False of
               (ok, b) \<Rightarrow> (ElementView_dtor e (set_inUse idx b s1), Inr ok)))"

text \<open>\<open>deallocate(pred)\<close>: the loop \<open>for (auto& e: storage)\<close> from position \<open>i\<close> on. The view
  of an iteration is destroyed when the iteration ends, also by a \<open>return\<close> or a throw.
  Besides the pool and the result the model returns the list of the slots on whose
  payload \<open>pred\<close> was called, in the order of the calls. \<open>spurious i\<close> says whether the
  \<open>compare_exchange_weak\<close> on slot \<open>i\<close> fails spuriously.\<close>

definition logged :: "nat \<Rightarrow> 's \<times> nat list \<times> 'r \<Rightarrow> 's \<times> nat list \<times> 'r" where
  "logged i r = (case r of (s, tr, res) \<Rightarrow> (s, i # tr, res))"

lemma length_mutex_unlock [simp]: "length (mutex_unlock i s) = length s"
  by (simp add: mutex_unlock_def)

lemma length_set_inUse [simp]: "length (set_inUse i b s) = length s"
  by (simp add: set_inUse_def)

lemma length_ElementView_dtor [simp]: "length (ElementView_dtor v s) = length s"
  by (simp add: ElementView_dtor_def split: option.splits)

lemma length_ElementView_ctor:
  "(s1, r) = ElementView_ctor i s \<Longrightarrow> length s1 = length s"
  by (auto simp: ElementView_ctor_def mutex_lock_def split: if_splits)

function deallocate_pred_from ::
  "('a \<Rightarrow> bool) \<Rightarrow> (nat \<Rightarrow> bool) \<Rightarrow> nat \<Rightarrow> 'a Element list \<Rightarrow>
     'a Element list \<times> nat list \<times> (error + bool)" where
  "deallocate_pred_from pred spurious i s =
     (if length s \<le> i then (s, [], Inr False)
      else
        case ElementView_ctor i s of
          (s1, Inl e) \<Rightarrow> (s1, [], Inl e)
        | (s1, Inr v) \<Rightarrow>
            (case operator_bool v s1 of
               Inl e \<Rightarrow> (ElementView_dtor v s1, [], Inl e)
             | Inr live \<Rightarrow>
                 if \<not> live then deallocate_pred_from pred spurious (Suc i) (ElementView_dtor v s1)
                 else
                   (case operator_call v s1 of
                      Inl e \<Rightarrow> (ElementView_dtor v s1, [], Inl e)
                    | Inr d \<Rightarrow>
                        if \<not> pred d
                        then logged i (deallocate_pred_from pred spurious (Suc i) (ElementView_dtor v s1))
                        else
                          (case compare_exchange_weak (spurious i) (inUse (s1 ! i)) True False of
                             (ok, b) \<Rightarrow>
                               if ok then (ElementView_dtor v (set_inUse i b s1), [i], Inr True)
                               else logged i (deallocate_pred_from pred spurious (Suc i)
                                      (ElementView_dtor v (set_inUse i b s1)))))))"
  by pat_completeness auto

termination deallocate_pred_from
  by (relation "measure (\<lambda>(pred, spurious, i, s). length s - i)")
     (auto dest: length_ElementView_ctor)

declare deallocate_pred_from.simps [simp del]

definition deallocate_pred ::
  "('a \<Rightarrow> bool) \<Rightarrow> (nat \<Rightarrow> bool) \<Rightarrow> 'a Element list \<Rightarrow> 'a Element list \<times> (error + bool)" where
  "deallocate_pred pred spurious s =
     (case deallocate_pred_from pred spurious 0 s of (s', tr, res) \<Rightarrow> (s', res))"

text \<open>The slots on whose payload a \<open>deallocate(pred)\<close> call evaluates \<open>pred\<close>.\<close>

definition deallocate_pred_evaluated ::
  "('a \<Rightarrow> bool) \<Rightarrow> (nat \<Rightarrow> bool) \<Rightarrow> 'a Element list \<Rightarrow> nat list" where
  "deallocate_pred_evaluated pred spurious s =
     (case deallocate_pred_from pred spurious 0 s of (s', tr, res) \<Rightarrow> tr)"

subsection \<open>Iteration\<close>

text \<open>\<open>begin()\<close>, \<open>end()\<close> and the iterator's \<open>operator++\<close>, \<open>operator*\<close> and \<open>operator==\<close>.
  \<open>operator++\<close> searches the range from \<open>iter + 1\<close> to the end of the array.\<close>

definition vault_begin :: "'a Element list \<Rightarrow> iterator" where
  "vault_begin s = \<lparr>iter = find_if inUse s\<rparr>"

definition vault_end :: "'a Element list \<Rightarrow> iterator" where
  "vault_end s = \<lparr>iter = length s\<rparr>"

definition operator_inc :: "iterator \<Rightarrow> 'a Element list \<Rightarrow> iterator" where
  "operator_inc it s = \<lparr>iter = Suc (iter it) + find_if inUse (drop (Suc (iter it)) s)\<rparr>"

definition operator_star :: "iterator \<Rightarrow> 'a Element list \<Rightarrow> 'a Element list \<times> (error + ElementView)" where
  "operator_star it s =
     (if length s \<le> iter it then (s, Inl PastTheEnd) else ElementView_ctor (iter it) s)"

definition operator_eq :: "iterator \<Rightarrow> iterator \<Rightarrow> bool" where
  "operator_eq a b = (iter a = iter b)"

text \<open>A pass over a range of iterators as the standard algorithms make it
  (\<open>for (; !(it == fin); ++it) f(*it)\<close>), where \<open>f\<close> calls the view it is given, as in
  \<open>[] (size_t a, auto d) { return a + d( ).field_1; }\<close>, and the view is destroyed when \<open>f\<close>
  returns or throws. The pass yields each view with the payload that calling it gave; an
  exception ends the pass.\<close>

function traverse ::
  "iterator \<Rightarrow> iterator \<Rightarrow> 'a Element list \<Rightarrow>
     'a Element list \<times> (error + (ElementView \<times> 'a) list)" where
  "traverse it fin s =
     (if operator_eq it fin then (s, Inr [])
      else
        case operator_star it s of
          (s1, Inl e) \<Rightarrow> (s1, Inl e)
        | (s1, Inr v) \<Rightarrow>
            (case operator_call v s1 of
               Inl e \<Rightarrow> (ElementView_dtor v s1, Inl e)
             | Inr d \<Rightarrow>
                 (case traverse (operator_inc it (ElementView_dtor v s1)) fin (ElementView_dtor v s1) of
                    (s2, Inl e) \<Rightarrow> (s2, Inl e)
                  | (s2, Inr rs) \<Rightarrow> (s2, Inr ((v, d) # rs)))))"
  by pat_completeness auto

termination traverse
  by (relation "measure (\<lambda>(it, fin, s). length s - iter it)")
     (auto simp: operator_star_def operator_inc_def split: if_splits
           dest: length_ElementView_ctor)

declare traverse.simps [simp del]

subsection \<open>The pool's operations, variant with one container-wide mutex\<close>

text \<open>With \<open>LOCK_FREE\<close> set to 0 the pool has a mutex of its own besides the array, and
  \<open>inUse\<close> is a plain \<open>bool\<close>. \<open>allocate\<close> and both \<open>deallocate\<close> begin with
  \<open>std::unique_lock _ {access}\<close>, which is released when the function is left.\<close>

record 'a CoarseVault =
  storage :: "'a Element list"
  vault_access :: bool

definition under_vault_lock ::
  "('a Element list \<Rightarrow> 'a Element list \<times> (error + 'r)) \<Rightarrow> 'a CoarseVault \<Rightarrow>
     'a CoarseVault \<times> (error + 'r)" where
  "under_vault_lock body c =
     (if vault_access c then (c, Inl SelfDeadlock)
      else
        case body (storage c) of
          (s', Inl SelfDeadlock) \<Rightarrow> (\<lparr>storage = s', vault_access = True\<rparr>, Inl SelfDeadlock)
        | (s', r) \<Rightarrow> (\<lparr>storage = s', vault_access = False\<rparr>, r))"

definition allocate_coarse_locked ::
  "'a Element list \<Rightarrow> 'a Element list \<times> (error + ElementView \<times> bool)" where
  "allocate_coarse_locked s =
     (let i = find_if_not inUse s in
      if i = length s then (s, Inr (ElementView_default, False))
      else
        case ElementView_ctor i s of
          (s1, Inl e) \<Rightarrow> (s1, Inl e)
        | (s1, Inr v) \<Rightarrow> (set_inUse i True s1, Inr (v, True)))"

definition allocate_coarse ::
  "'a CoarseVault \<Rightarrow> 'a CoarseVault \<times> (error + ElementView \<times> bool)" where
  "allocate_coarse = under_vault_lock allocate_coarse_locked"

definition deallocate_coarse_locked ::
  "nat \<Rightarrow> 'a Element list \<Rightarrow> 'a Element list \<times> (error + bool)" where
  "deallocate_coarse_locked idx s =
     (if length s \<le> idx then (s, Inl OutOfRange)
      else
        case ElementView_ctor idx s of
          (s1, Inl e) \<Rightarrow> (s1, Inl e)
        | (s1, Inr e) \<Rightarrow>
            (case exchange (inUse (s1 ! idx)) False of
               (old, b) \<Rightarrow> (ElementView_dtor e (set_inUse idx b s1), Inr old)))"

definition deallocate_coarse :: "nat \<Rightarrow> 'a CoarseVault \<Rightarrow> 'a CoarseVault \<times> (error + bool)" where
  "deallocate_coarse idx = under_vault_lock (deallocate_coarse_locked idx)"

lemma deallocate_pred_coarse_recheck:
  assumes "find_if (\<lambda>e. inUse e \<and> pred (data e)) s \<noteq> length s"
    and "mutex_lock (find_if (\<lambda>e. inUse e \<and> pred (data e)) s) s = Inr s1"
  shows "pred (data (s1 ! find_if (\<lambda>e. inUse e \<and> pred (data e)) s))"
proof -
  let ?i = "find_if (\<lambda>e. inUse e \<and> pred (data e)) s"
  have lt: "?i < length s"
    using assms(1) find_if_le [of "\<lambda>e. inUse e \<and> pred (data e)" s] by simp
  then have "pred (data (s ! ?i))"
    using find_if_sat [of "\<lambda>e. inUse e \<and> pred (data e)" s] by simp
  moreover have "s1 = s[?i := (s ! ?i)\<lparr>access := True\<rparr>]"
    using assms(2) by (simp add: mutex_lock_def split: if_splits)
  ultimately show ?thesis
    using lt by simp
qed

text \<open>\<open>deallocate(pred)\<close>: the \<open>do ... while (true)\<close> loop is the recursion, re-entered by
  \<open>continue\<close> after \<open>_2\<close> has been released.\<close>

function deallocate_pred_coarse_locked ::
  "('a \<Rightarrow> bool) \<Rightarrow> 'a Element list \<Rightarrow> 'a Element list \<times> (error + bool)" where
  "deallocate_pred_coarse_locked pred s =
     (let i = find_if (\<lambda>e. inUse e \<and> pred (data e)) s in
      if i = length s then (s, Inr False)
      else
        case mutex_lock i s of
          Inl e \<Rightarrow> (s, Inl e)
        | Inr s1 \<Rightarrow>
            if \<not> pred (data (s1 ! i)) then deallocate_pred_coarse_locked pred (mutex_unlock i s1)
            else
              (case exchange (inUse (s1 ! i)) False of
                 (old, b) \<Rightarrow> (mutex_unlock i (set_inUse i b s1), Inr old)))"
  by pat_completeness auto

termination deallocate_pred_coarse_locked
  apply (relation "{}")
   apply simp
  apply (simp only:)
  apply (frule (1) deallocate_pred_coarse_recheck)
  apply simp
  done

declare deallocate_pred_coarse_locked.simps [simp del]

definition deallocate_pred_coarse ::
  "('a \<Rightarrow> bool) \<Rightarrow> 'a CoarseVault \<Rightarrow> 'a CoarseVault \<times> (error + bool)" where
  "deallocate_pred_coarse pred = under_vault_lock (deallocate_pred_coarse_locked pred)"

text \<open>\<open>view\<close>, \<open>begin\<close>, \<open>end\<close>, \<open>capacity\<close> and the iterator do not touch the container's
  mutex; they are the functions above applied to the array.\<close>

definition on_storage ::
  "('a Element list \<Rightarrow> 'a Element list \<times> 'r) \<Rightarrow> 'a CoarseVault \<Rightarrow> 'a CoarseVault \<times> 'r" where
  "on_storage f c = (case f (storage c) of (s', r) \<Rightarrow> (c\<lparr>storage := s'\<rparr>, r))"

subsection \<open>Sequences of calls by one thread\<close>

text \<open>A call of the public interface and what it gives back. A \<open>deallocate(pred)\<close> call
  comes with the spurious failures of its weak exchanges. The view that \<open>allocate\<close> or
  \<open>view\<close> returns is destroyed before the next call, as it is in
  \<open>if (auto [view, inserted] = v->allocate(); inserted) { ... }\<close>.\<close>

datatype 'a call =
    Allocate
  | Deallocate nat
  | DeallocatePred "'a \<Rightarrow> bool" "nat \<Rightarrow> bool"
  | View nat
  | Iterate
  | Capacity

datatype 'a reply =
    Allocated "error + ElementView \<times> bool"
  | Deallocated "error + bool"
  | Viewed "error + ElementView"
  | Iterated "error + (ElementView \<times> 'a) list"
  | CapacityIs nat

definition drop_view ::
  "'a Element list \<times> (error + ElementView \<times> bool) \<Rightarrow> 'a Element list \<times> (error + ElementView \<times> bool)" where
  "drop_view r = (case r of (s, Inr (v, ok)) \<Rightarrow> (ElementView_dtor v s, Inr (v, ok)) | (s, Inl e) \<Rightarrow> (s, Inl e))"

definition drop_view1 ::
  "'a Element list \<times> (error + ElementView) \<Rightarrow> 'a Element list \<times> (error + ElementView)" where
  "drop_view1 r = (case r of (s, Inr v) \<Rightarrow> (ElementView_dtor v s, Inr v) | (s, Inl e) \<Rightarrow> (s, Inl e))"

fun step :: "'a call \<Rightarrow> 'a Element list \<Rightarrow> 'a Element list \<times> 'a reply" where
  "step Allocate s = (case drop_view (allocate s) of (s', r) \<Rightarrow> (s', Allocated r))"
| "step (Deallocate idx) s = (case deallocate idx s of (s', r) \<Rightarrow> (s', Deallocated r))"
| "step (DeallocatePred pred spurious) s =
     (case deallocate_pred pred spurious s of (s', r) \<Rightarrow> (s', Deallocated r))"
| "step (View idx) s = (case drop_view1 (view idx s) of (s', r) \<Rightarrow> (s', Viewed r))"
| "step Iterate s =
     (case traverse (vault_begin s) (vault_end s) s of (s', r) \<Rightarrow> (s', Iterated r))"
| "step Capacity s = (s, CapacityIs (capacity s))"

fun step_coarse :: "'a call \<Rightarrow> 'a CoarseVault \<Rightarrow> 'a CoarseVault \<times> 'a reply" where
  "step_coarse Allocate c =
     (case allocate_coarse c of
        (c', r) \<Rightarrow> (case drop_view (storage c', r) of (s', r') \<Rightarrow> (c'\<lparr>storage := s'\<rparr>, Allocated r')))"
| "step_coarse (Deallocate idx) c = (case deallocate_coarse idx c of (c', r) \<Rightarrow> (c', Deallocated r))"
| "step_coarse (DeallocatePred pred spurious) c =
     (case deallocate_pred_coarse pred c of (c', r) \<Rightarrow> (c', Deallocated r))"
| "step_coarse (View idx) c =
     (case on_storage (\<lambda>s. drop_view1 (view idx s)) c of (c', r) \<Rightarrow> (c', Viewed r))"
| "step_coarse Iterate c =
     (case on_storage (\<lambda>s. traverse (vault_begin s) (vault_end s) s) c of
        (c', r) \<Rightarrow> (c', Iterated r))"
| "step_coarse Capacity c = (c, CapacityIs (capacity (storage c)))"

text \<open>Undefined behaviour ends the run of the thread; a thrown exception is a reply like
  any other.\<close>

fun undefined_behaviour :: "error \<Rightarrow> bool" where
  "undefined_behaviour OutOfRange = False"
| "undefined_behaviour EmptyAccess = False"
| "undefined_behaviour NullDereference = True"
| "undefined_behaviour SelfDeadlock = True"
| "undefined_behaviour PastTheEnd = True"

fun reply_error :: "'a reply \<Rightarrow> error option" where
  "reply_error (Allocated r) = (case r of Inl e \<Rightarrow> Some e | Inr _ \<Rightarrow> None)"
| "reply_error (Deallocated r) = (case r of Inl e \<Rightarrow> Some e | Inr _ \<Rightarrow> None)"
| "reply_error (Viewed r) = (case r of Inl e \<Rightarrow> Some e | Inr _ \<Rightarrow> None)"
| "reply_error (Iterated r) = (case r of Inl e \<Rightarrow> Some e | Inr _ \<Rightarrow> None)"
| "reply_error (CapacityIs n) = None"

definition ends_run :: "'a reply \<Rightarrow> bool" where
  "ends_run r = (case reply_error r of None \<Rightarrow> False | Some e \<Rightarrow> undefined_behaviour e)"

fun run :: "('c \<Rightarrow> 's \<Rightarrow> 's \<times> 'a reply) \<Rightarrow> 'c list \<Rightarrow> 's \<Rightarrow> 's \<times> 'a reply list" where
  "run stp [] s = (s, [])"
| "run stp (c # cs) s =
     (case stp c s of
        (s1, r) \<Rightarrow>
          if ends_run r then (s1, [r])
          else (case run stp cs s1 of (s2, rs) \<Rightarrow> (s2, r # rs)))"

fun allocate_succeeded :: "'a reply \<Rightarrow> bool" where
  "allocate_succeeded (Allocated (Inr (v, ok))) = ok"
| "allocate_succeeded _ = False"

fun deallocate_succeeded :: "'a reply \<Rightarrow> bool" where
  "deallocate_succeeded (Deallocated (Inr ok)) = ok"
| "deallocate_succeeded _ = False"

definition occupied :: "'a Element list \<Rightarrow> nat" where
  "occupied s = length (filter inUse s)"

text \<open>A newly constructed pool: every slot free (\<open>inUse {false}\<close>), every mutex unlocked,
  the payloads as the element type's construction leaves them.\<close>

definition Vault_new :: "'a list \<Rightarrow> 'a Element list" where
  "Vault_new ds = map (\<lambda>d. \<lparr>data = d, access = False, inUse = False\<rparr>) ds"

definition CoarseVault_new :: "'a list \<Rightarrow> 'a CoarseVault" where
  "CoarseVault_new ds = \<lparr>storage = Vault_new ds, vault_access = False\<rparr>"

text \<open>No view is alive: every mutex of the pool is unlocked.\<close>

definition no_view_alive :: "'a Element list \<Rightarrow> bool" where
  "no_view_alive s = list_all (\<lambda>e. \<not> access e) s"

text \<open>The state of the coarse variant between two calls of one thread, and a call whose
  weak exchanges do not fail spuriously.\<close>

definition quiescent :: "'a CoarseVault \<Rightarrow> bool" where
  "quiescent c = (\<not> vault_access c \<and> no_view_alive (storage c))"

fun without_spurious_failure :: "'a call \<Rightarrow> bool" where
  "without_spurious_failure (DeallocatePred pred spurious) = (\<forall>i. \<not> spurious i)"
| "without_spurious_failure _ = True"

section \<open>Properties\<close>

subsection \<open>Locking and unlocking one slot\<close>

lemma lock_then_unlock:
  "i < length s \<Longrightarrow> \<not> access (s ! i) \<Longrightarrow> mutex_unlock i (s[i := (s ! i)\<lparr>access := True\<rparr>]) = s"
  by (simp add: mutex_unlock_def list_eq_iff_nth_eq nth_list_update)

lemma lock_set_unlock:
  "i < length s \<Longrightarrow> \<not> access (s ! i) \<Longrightarrow>
     mutex_unlock i (set_inUse i b (s[i := (s ! i)\<lparr>access := True\<rparr>])) = set_inUse i b s"
  by (simp add: mutex_unlock_def set_inUse_def list_eq_iff_nth_eq nth_list_update)

lemma set_inUse_same: "i < length s \<Longrightarrow> inUse (s ! i) = b \<Longrightarrow> set_inUse i b s = s"
  by (auto simp add: set_inUse_def list_eq_iff_nth_eq nth_list_update)

lemma ElementView_ctor_free:
  "\<not> access (s ! i) \<Longrightarrow>
     ElementView_ctor i s = (s[i := (s ! i)\<lparr>access := True\<rparr>], Inr \<lparr>ref = Some i\<rparr>)"
  by (simp add: ElementView_ctor_def mutex_lock_def)

lemma ElementView_ctor_held:
  "access (s ! i) \<Longrightarrow> ElementView_ctor i s = (s, Inl SelfDeadlock)"
  by (simp add: ElementView_ctor_def mutex_lock_def)

subsection \<open>\<open>allocate\<close>\<close>

lemma allocate_free:
  assumes "i < length s" "\<not> inUse (s ! i)" "\<forall>j<i. inUse (s ! j)" "\<not> access (s ! i)"
  shows "allocate s =
    (s[i := (s ! i)\<lparr>access := True, inUse := True\<rparr>], Inr (\<lparr>ref = Some i\<rparr>, True))"
proof -
  have fi: "find_if_not inUse s = i"
    unfolding find_if_not_def using assms by (intro find_if_unique) auto
  show ?thesis
    using assms(1,2,4)
    by (subst allocate.simps)
       (simp add: fi ElementView_ctor_free compare_exchange_strong_def set_inUse_def)
qed

lemma allocate_full:
  assumes "\<forall>e\<in>set s. inUse e"
  shows "allocate s = (s, Inr (ElementView_default, False))"
proof -
  have "find_if_not inUse s = length s"
    unfolding find_if_not_def using assms by (simp add: find_if_end)
  then show ?thesis
    by (subst allocate.simps) simp
qed

text \<open>
  C1. When the pool has a free slot, \<open>i\<close> is the lowest one and no view holds its mutex,
  \<open>allocate()\<close> returns the success flag \<open>true\<close> with a view of slot \<open>i\<close>; in the pool it
  leaves, slot \<open>i\<close> is occupied and its mutex is owned by the returned view, and nothing
  else has changed. When every slot is occupied, \<open>allocate()\<close> returns the flag \<open>false\<close>
  with the empty view and leaves the pool as it was.
\<close>

theorem allocate_claims_lowest_free:
  "(i < length s \<and> \<not> inUse (s ! i) \<and> (\<forall>j<i. inUse (s ! j)) \<and> \<not> access (s ! i) \<longrightarrow>
      allocate s =
        (s[i := (s ! i)\<lparr>access := True, inUse := True\<rparr>], Inr (\<lparr>ref = Some i\<rparr>, True)))
   \<and> ((\<forall>e\<in>set s. inUse e) \<longrightarrow> allocate s = (s, Inr (ElementView_default, False)))"
  using allocate_free [of i s] allocate_full [of s] by blast

theorem allocate_claims_lowest_free_witness:
  "allocate [\<lparr>data = 1::nat, access = False, inUse = True\<rparr>,
             \<lparr>data = 2, access = False, inUse = False\<rparr>,
             \<lparr>data = 3, access = False, inUse = False\<rparr>]
     = ([\<lparr>data = 1, access = False, inUse = True\<rparr>,
         \<lparr>data = 2, access = True, inUse = True\<rparr>,
         \<lparr>data = 3, access = False, inUse = False\<rparr>], Inr (\<lparr>ref = Some 1\<rparr>, True))
   \<and> allocate [\<lparr>data = 1::nat, access = False, inUse = True\<rparr>]
     = ([\<lparr>data = 1, access = False, inUse = True\<rparr>], Inr (ElementView_default, False))"
  using allocate_claims_lowest_free [of 1 "[\<lparr>data = 1::nat, access = False, inUse = True\<rparr>,
             \<lparr>data = 2, access = False, inUse = False\<rparr>,
             \<lparr>data = 3, access = False, inUse = False\<rparr>]"]
    allocate_claims_lowest_free [of 0 "[\<lparr>data = 1::nat, access = False, inUse = True\<rparr>]"]
  by simp

subsection \<open>\<open>deallocate(idx)\<close> and \<open>view(idx)\<close>\<close>

lemma deallocate_occupied:
  "i < length s \<Longrightarrow> \<not> access (s ! i) \<Longrightarrow> inUse (s ! i) \<Longrightarrow>
     deallocate i s = (set_inUse i False s, Inr True)"
  by (simp add: deallocate_def ElementView_ctor_free compare_exchange_strong_def
        ElementView_dtor_def lock_set_unlock)

lemma deallocate_free:
  "i < length s \<Longrightarrow> \<not> access (s ! i) \<Longrightarrow> \<not> inUse (s ! i) \<Longrightarrow>
     deallocate i s = (s, Inr False)"
  by (simp add: deallocate_def ElementView_ctor_free compare_exchange_strong_def
        ElementView_dtor_def set_inUse_same lock_then_unlock)

lemma deallocate_held:
  "i < length s \<Longrightarrow> access (s ! i) \<Longrightarrow> deallocate i s = (s, Inl SelfDeadlock)"
  by (simp add: deallocate_def ElementView_ctor_held)

lemma deallocate_beyond:
  "length s \<le> i \<Longrightarrow> deallocate i s = (s, Inl OutOfRange)"
  by (simp add: deallocate_def)

text \<open>
  C3. For an index \<open>i\<close> inside the pool whose mutex no view holds: when slot \<open>i\<close> is
  occupied, \<open>deallocate(i)\<close> returns \<open>true\<close> and only flips the slot's occupancy to false,
  and a second \<open>deallocate(i)\<close> right after returns \<open>false\<close> and changes nothing; when slot
  \<open>i\<close> is free, \<open>deallocate(i)\<close> returns \<open>false\<close>, raises nothing and leaves the pool as it
  was.
\<close>

theorem deallocate_index_round_trip:
  "i < length s \<and> \<not> access (s ! i) \<longrightarrow>
     (inUse (s ! i) \<longrightarrow>
        deallocate i s = (set_inUse i False s, Inr True) \<and>
        deallocate i (set_inUse i False s) = (set_inUse i False s, Inr False)) \<and>
     (\<not> inUse (s ! i) \<longrightarrow> deallocate i s = (s, Inr False))"
  using deallocate_occupied [of i s] deallocate_free [of i s]
    deallocate_free [of i "set_inUse i False s"]
  by (auto simp: set_inUse_def)

theorem deallocate_index_round_trip_witness:
  "deallocate 1 [\<lparr>data = 1::nat, access = False, inUse = False\<rparr>,
                 \<lparr>data = 2, access = False, inUse = True\<rparr>]
     = ([\<lparr>data = 1, access = False, inUse = False\<rparr>,
         \<lparr>data = 2, access = False, inUse = False\<rparr>], Inr True)
   \<and> deallocate 1 [\<lparr>data = 1::nat, access = False, inUse = False\<rparr>,
                   \<lparr>data = 2, access = False, inUse = False\<rparr>]
     = ([\<lparr>data = 1, access = False, inUse = False\<rparr>,
         \<lparr>data = 2, access = False, inUse = False\<rparr>], Inr False)
   \<and> deallocate 0 [\<lparr>data = 1::nat, access = False, inUse = False\<rparr>,
                   \<lparr>data = 2, access = False, inUse = True\<rparr>]
     = ([\<lparr>data = 1, access = False, inUse = False\<rparr>,
         \<lparr>data = 2, access = False, inUse = True\<rparr>], Inr False)"
  using deallocate_index_round_trip [of 1 "[\<lparr>data = 1::nat, access = False, inUse = False\<rparr>,
                 \<lparr>data = 2, access = False, inUse = True\<rparr>]"]
    deallocate_index_round_trip [of 0 "[\<lparr>data = 1::nat, access = False, inUse = False\<rparr>,
                 \<lparr>data = 2, access = False, inUse = True\<rparr>]"]
  by (simp add: set_inUse_def)

lemma view_inside:
  "idx < length s \<Longrightarrow> \<not> access (s ! idx) \<Longrightarrow>
     view idx s = (s[idx := (s ! idx)\<lparr>access := True\<rparr>], Inr \<lparr>ref = Some idx\<rparr>)"
  by (simp add: view_def ElementView_ctor_free)

lemma view_held:
  "idx < length s \<Longrightarrow> access (s ! idx) \<Longrightarrow> view idx s = (s, Inl SelfDeadlock)"
  by (simp add: view_def ElementView_ctor_held)

lemma view_beyond:
  "length s \<le> idx \<Longrightarrow> view idx s = (s, Inl OutOfRange)"
  by (simp add: view_def)

text \<open>
  C6. \<open>deallocate(idx)\<close> and \<open>view(idx)\<close> throw the out-of-range exception exactly when
  \<open>idx\<close> is at least the capacity, and then the pool is left as it was. For an index
  inside the pool neither call throws an exception, and each returns a value when no view
  holds the slot's mutex.
\<close>

theorem index_out_of_range_iff:
  "(snd (deallocate idx s) = Inl OutOfRange \<longleftrightarrow> capacity s \<le> idx) \<and>
   (snd (view idx s) = Inl OutOfRange \<longleftrightarrow> capacity s \<le> idx) \<and>
   (capacity s \<le> idx \<longrightarrow> fst (deallocate idx s) = s \<and> fst (view idx s) = s) \<and>
   (idx < capacity s \<longrightarrow>
      snd (deallocate idx s) \<noteq> Inl EmptyAccess \<and> snd (view idx s) \<noteq> Inl EmptyAccess) \<and>
   (idx < capacity s \<and> \<not> access (s ! idx) \<longrightarrow>
      (\<exists>b. snd (deallocate idx s) = Inr b) \<and> (\<exists>v. snd (view idx s) = Inr v))"
proof (cases "idx < length s")
  case False
  then show ?thesis
    by (simp add: capacity_def deallocate_beyond view_beyond)
next
  case inside: True
  show ?thesis
  proof (cases "access (s ! idx)")
    case True
    with inside show ?thesis
      by (simp add: capacity_def deallocate_held view_held)
  next
    case False
    with inside show ?thesis
      by (cases "inUse (s ! idx)")
         (auto simp add: capacity_def deallocate_occupied deallocate_free view_inside)
  qed
qed

theorem index_out_of_range_iff_witness:
  "snd (deallocate 2 [\<lparr>data = 1::nat, access = False, inUse = True\<rparr>,
                     \<lparr>data = 2, access = False, inUse = False\<rparr>]) = Inl OutOfRange
   \<and> fst (view 5 [\<lparr>data = 1::nat, access = False, inUse = True\<rparr>])
       = [\<lparr>data = 1::nat, access = False, inUse = True\<rparr>]
   \<and> (\<exists>b. snd (deallocate 1 [\<lparr>data = 1::nat, access = False, inUse = True\<rparr>,
                     \<lparr>data = 2, access = False, inUse = False\<rparr>]) = Inr b)"
  using index_out_of_range_iff [of 2 "[\<lparr>data = 1::nat, access = False, inUse = True\<rparr>,
                     \<lparr>data = 2, access = False, inUse = False\<rparr>]"]
    index_out_of_range_iff [of 5 "[\<lparr>data = 1::nat, access = False, inUse = True\<rparr>]"]
    index_out_of_range_iff [of 1 "[\<lparr>data = 1::nat, access = False, inUse = True\<rparr>,
                     \<lparr>data = 2, access = False, inUse = False\<rparr>]"]
  by (simp add: capacity_def)

subsection \<open>The view's \<open>operator()\<close> and \<open>operator bool\<close>\<close>

lemma operator_call_bound:
  "ref v = Some i \<Longrightarrow>
     operator_call v s = (if inUse (s ! i) then Inr (data (s ! i)) else Inl EmptyAccess)"
  by (simp add: operator_call_def ref_inUse_def)

lemma operator_call_unbound:
  "ref v = None \<Longrightarrow> operator_call v s = Inl NullDereference"
  by (simp add: operator_call_def ref_inUse_def)

text \<open>
  C5. On a pool of one occupied slot \<open>allocate()\<close> fails and returns the empty view;
  calling that view reads \<open>ref->inUse\<close> through the null \<open>ref\<close>, which is undefined
  behaviour and not the exception of an empty access.
\<close>

theorem operator_call_of_empty_view:
  "allocate [\<lparr>data = 7::nat, access = False, inUse = True\<rparr>]
     = ([\<lparr>data = 7, access = False, inUse = True\<rparr>], Inr (ElementView_default, False))
   \<and> operator_call ElementView_default [\<lparr>data = 7::nat, access = False, inUse = True\<rparr>]
     = Inl NullDereference
   \<and> operator_call \<lparr>ref = Some 0\<rparr> [\<lparr>data = 7::nat, access = True, inUse = False\<rparr>]
     = Inl EmptyAccess"
  by (simp add: allocate_full operator_call_unbound operator_call_bound ElementView_default_def)

text \<open>
  C10. \<open>operator bool\<close> returns a value for every view and never faults: \<open>true\<close> exactly
  when the view is bound to a slot and that slot is occupied; for the empty view it
  returns \<open>false\<close>.
\<close>

theorem operator_bool_never_faults:
  "operator_bool v s = Inr (\<exists>i. ref v = Some i \<and> inUse (s ! i)) \<and>
   operator_bool ElementView_default s = Inr False"
  by (cases "ref v") (simp_all add: operator_bool_def ref_inUse_def ElementView_default_def)

subsection \<open>\<open>deallocate(pred)\<close>\<close>

lemma deallocate_pred_from_end:
  "length s \<le> i \<Longrightarrow> deallocate_pred_from pred sp i s = (s, [], Inr False)"
  by (subst deallocate_pred_from.simps) simp

lemma deallocate_pred_from_held:
  "i < length s \<Longrightarrow> access (s ! i) \<Longrightarrow> deallocate_pred_from pred sp i s = (s, [], Inl SelfDeadlock)"
  by (subst deallocate_pred_from.simps) (simp add: ElementView_ctor_held)

lemma deallocate_pred_from_step:
  assumes "i < length s" "\<not> access (s ! i)"
  shows "deallocate_pred_from pred sp i s =
    (if \<not> inUse (s ! i) then deallocate_pred_from pred sp (Suc i) s
     else if \<not> pred (data (s ! i)) \<or> sp i then logged i (deallocate_pred_from pred sp (Suc i) s)
     else (set_inUse i False s, [i], Inr True))"
  using assms
  by (subst deallocate_pred_from.simps)
     (simp add: ElementView_ctor_free operator_bool_def operator_call_def ref_inUse_def
        ElementView_dtor_def lock_then_unlock lock_set_unlock compare_exchange_weak_def
        compare_exchange_strong_def set_inUse_same)

lemma deallocate_pred_from_none:
  assumes "\<forall>k. i \<le> k \<and> k < length s \<longrightarrow> \<not> access (s ! k)"
    and "\<forall>k. i \<le> k \<and> k < length s \<longrightarrow> \<not> (inUse (s ! k) \<and> pred (data (s ! k)) \<and> \<not> sp k)"
  shows "deallocate_pred_from pred sp i s = (s, filter (\<lambda>k. inUse (s ! k)) [i..<length s], Inr False)"
  using assms
proof (induction "length s - i" arbitrary: i)
  case 0
  then show ?case by (simp add: deallocate_pred_from_end)
next
  case (Suc n)
  then have lt: "i < length s" by simp
  have free: "\<not> access (s ! i)" using Suc.prems(1) lt by simp
  have miss: "\<not> (inUse (s ! i) \<and> pred (data (s ! i)) \<and> \<not> sp i)" using Suc.prems(2) lt by simp
  have ih: "deallocate_pred_from pred sp (Suc i) s
      = (s, filter (\<lambda>k. inUse (s ! k)) [Suc i..<length s], Inr False)"
    using Suc.hyps(2) Suc.prems by (intro Suc.hyps(1)) auto
  show ?case
    using miss lt
    by (auto simp add: deallocate_pred_from_step [OF lt free] ih upt_conv_Cons logged_def)
qed

lemma deallocate_pred_from_hit:
  assumes "i \<le> j" "j < length s"
    and "\<forall>k. i \<le> k \<and> k \<le> j \<longrightarrow> \<not> access (s ! k)"
    and "inUse (s ! j)" "pred (data (s ! j))" "\<not> sp j"
    and "\<forall>k. i \<le> k \<and> k < j \<longrightarrow> \<not> (inUse (s ! k) \<and> pred (data (s ! k)) \<and> \<not> sp k)"
  shows "deallocate_pred_from pred sp i s
    = (set_inUse j False s, filter (\<lambda>k. inUse (s ! k)) [i..<Suc j], Inr True)"
  using assms
proof (induction "j - i" arbitrary: i)
  case 0
  then have "i = j" by simp
  with 0 show ?case
    by (simp add: deallocate_pred_from_step)
next
  case (Suc n)
  then have lt: "i < j" by simp
  then have lts: "i < length s" using Suc.prems by simp
  have free: "\<not> access (s ! i)" using Suc.prems(3) lt by simp
  have miss: "\<not> (inUse (s ! i) \<and> pred (data (s ! i)) \<and> \<not> sp i)" using Suc.prems(7) lt by simp
  have ih: "deallocate_pred_from pred sp (Suc i) s
      = (set_inUse j False s, filter (\<lambda>k. inUse (s ! k)) [Suc i..<Suc j], Inr True)"
    using Suc.hyps(2) Suc.prems lt by (intro Suc.hyps(1)) auto
  have "[i..<Suc j] = i # [Suc i..<Suc j]"
    using lt by (simp add: upt_conv_Cons del: upt_Suc)
  then show ?case
    using miss
    by (auto simp add: deallocate_pred_from_step [OF lts free] ih logged_def simp del: upt_Suc)
qed

lemma deallocate_pred_first_match:
  assumes "j < length s" "inUse (s ! j)" "pred (data (s ! j))"
    and "\<forall>k<j. \<not> (inUse (s ! k) \<and> pred (data (s ! k)))"
    and "\<forall>k\<le>j. \<not> access (s ! k)"
  shows "deallocate_pred pred (\<lambda>i. False) s = (set_inUse j False s, Inr True)"
    and "deallocate_pred_evaluated pred (\<lambda>i. False) s = filter (\<lambda>k. inUse (s ! k)) [0..<Suc j]"
  using deallocate_pred_from_hit [of 0 j s pred "\<lambda>i. False"] assms
  by (simp_all add: deallocate_pred_def deallocate_pred_evaluated_def)

lemma deallocate_pred_no_match:
  assumes "\<forall>k<length s. \<not> (inUse (s ! k) \<and> pred (data (s ! k)))"
    and "\<forall>k<length s. \<not> access (s ! k)"
  shows "deallocate_pred pred (\<lambda>i. False) s = (s, Inr False)"
    and "deallocate_pred_evaluated pred (\<lambda>i. False) s = filter (\<lambda>k. inUse (s ! k)) [0..<length s]"
  using deallocate_pred_from_none [of 0 s pred "\<lambda>i. False"] assms
  by (simp_all add: deallocate_pred_def deallocate_pred_evaluated_def)

text \<open>
  C4. \<open>deallocate(pred)\<close> tries to free a matching slot with \<open>compare_exchange_weak\<close>, once.
  On a pool of one occupied slot whose payload matches, a run in which that exchange
  fails spuriously returns \<open>false\<close> and leaves the slot occupied; on a pool of two
  matching slots with a spurious failure on slot 0, slot 1 is freed and not the lowest
  one. Without a spurious failure slot 0 is freed.
\<close>

theorem deallocate_pred_weak_exchange:
  "deallocate_pred (\<lambda>d. True) (\<lambda>i. True) [\<lparr>data = 7::nat, access = False, inUse = True\<rparr>]
     = ([\<lparr>data = 7, access = False, inUse = True\<rparr>], Inr False)
   \<and> deallocate_pred (\<lambda>d. True) (\<lambda>i. i = 0)
        [\<lparr>data = 7::nat, access = False, inUse = True\<rparr>, \<lparr>data = 8, access = False, inUse = True\<rparr>]
     = ([\<lparr>data = 7, access = False, inUse = True\<rparr>, \<lparr>data = 8, access = False, inUse = False\<rparr>],
        Inr True)
   \<and> deallocate_pred (\<lambda>d. True) (\<lambda>i. False)
        [\<lparr>data = 7::nat, access = False, inUse = True\<rparr>, \<lparr>data = 8, access = False, inUse = True\<rparr>]
     = ([\<lparr>data = 7, access = False, inUse = False\<rparr>, \<lparr>data = 8, access = False, inUse = True\<rparr>],
        Inr True)"
  by (simp add: deallocate_pred_def deallocate_pred_from_step deallocate_pred_from_end
        logged_def set_inUse_def)

subsection \<open>The two variants, one call\<close>

lemma compare_exchange_strong_is_exchange:
  "compare_exchange_strong cell True False = exchange cell False"
  by (simp add: compare_exchange_strong_def exchange_def)

lemma allocate_unfold: "allocate s = allocate_coarse_locked s"
proof (cases "find_if_not inUse s = length s")
  case True
  then show ?thesis
    by (subst allocate.simps) (simp add: allocate_coarse_locked_def)
next
  case False
  show ?thesis
  proof (cases "access (s ! find_if_not inUse s)")
    case True
    with False show ?thesis
      by (subst allocate.simps) (simp add: allocate_coarse_locked_def ElementView_ctor_held)
  next
    case free: False
    have "compare_exchange_strong
        (inUse (s[find_if_not inUse s := (s ! find_if_not inUse s)\<lparr>access := True\<rparr>] ! find_if_not inUse s))
        False True = (True, True)"
      using allocate_exchange_succeeds [OF False ElementView_ctor_free [OF free]] .
    with False free show ?thesis
      by (subst allocate.simps) (simp add: allocate_coarse_locked_def ElementView_ctor_free)
  qed
qed

lemma deallocate_unfold: "deallocate idx s = deallocate_coarse_locked idx s"
  by (simp add: deallocate_def deallocate_coarse_locked_def compare_exchange_strong_is_exchange)

subsection \<open>Payloads\<close>

lemma data_update_kept:
  assumes "data x = data (s ! i)"
  shows "map data (s[i := x]) = map data s"
proof (cases "i < length s")
  case True
  with assms show ?thesis
    by (simp add: map_update list_update_same_conv)
next
  case False
  then show ?thesis
    by (simp add: list_update_beyond)
qed

lemma data_mutex_unlock [simp]: "map data (mutex_unlock i s) = map data s"
  by (simp add: mutex_unlock_def data_update_kept)

lemma data_set_inUse [simp]: "map data (set_inUse i b s) = map data s"
  by (simp add: set_inUse_def data_update_kept)

lemma data_ElementView_dtor [simp]: "map data (ElementView_dtor v s) = map data s"
  by (simp add: ElementView_dtor_def split: option.splits)

lemma data_ElementView_ctor: "ElementView_ctor i s = (s1, r) \<Longrightarrow> map data s1 = map data s"
  by (auto simp: ElementView_ctor_def mutex_lock_def data_update_kept split: if_splits)

lemma data_allocate: "map data (fst (allocate s)) = map data s"
  by (auto simp: allocate_unfold allocate_coarse_locked_def Let_def
        split: prod.splits sum.splits dest: data_ElementView_ctor)

lemma data_deallocate: "map data (fst (deallocate idx s)) = map data s"
  by (auto simp: deallocate_def split: prod.splits sum.splits dest: data_ElementView_ctor)

lemma data_logged: "fst (logged i r) = fst r"
  by (simp add: logged_def split: prod.splits)

lemma data_deallocate_pred_from:
  "map data (fst (deallocate_pred_from pred sp i s)) = map data s"
proof (induction pred sp i s rule: deallocate_pred_from.induct)
  case (1 pred spurious i s)
  show ?case
    apply (subst deallocate_pred_from.simps)
    using 1
    apply (auto simp: data_logged split: prod.splits sum.splits dest: data_ElementView_ctor)
    done
qed

lemma data_deallocate_pred: "map data (fst (deallocate_pred pred sp s)) = map data s"
  using data_deallocate_pred_from [of pred sp 0 s]
  by (cases "deallocate_pred_from pred sp 0 s") (simp add: deallocate_pred_def)

lemma reclaim_exposes_old_payload:
  assumes "i < length s" "inUse (s ! i)" "\<forall>j<i. inUse (s ! j)" "\<not> access (s ! i)"
  shows "allocate (fst (deallocate i s))
           = (s[i := (s ! i)\<lparr>access := True\<rparr>], Inr (\<lparr>ref = Some i\<rparr>, True))"
    and "operator_call \<lparr>ref = Some i\<rparr> (s[i := (s ! i)\<lparr>access := True\<rparr>]) = Inr (data (s ! i))"
proof -
  let ?s1 = "set_inUse i False s"
  have d: "deallocate i s = (?s1, Inr True)"
    using assms by (simp add: deallocate_occupied)
  have "allocate ?s1
      = (?s1[i := (?s1 ! i)\<lparr>access := True, inUse := True\<rparr>], Inr (\<lparr>ref = Some i\<rparr>, True))"
    using assms by (intro allocate_free) (simp_all add: set_inUse_def)
  moreover have "(s ! i)\<lparr>access := True, inUse := True\<rparr> = (s ! i)\<lparr>access := True\<rparr>"
    using assms(2) by (cases "s ! i") simp
  then have "?s1[i := (?s1 ! i)\<lparr>access := True, inUse := True\<rparr>] = s[i := (s ! i)\<lparr>access := True\<rparr>]"
    using assms(1) by (simp add: set_inUse_def)
  ultimately show "allocate (fst (deallocate i s))
           = (s[i := (s ! i)\<lparr>access := True\<rparr>], Inr (\<lparr>ref = Some i\<rparr>, True))"
    using d by simp
  show "operator_call \<lparr>ref = Some i\<rparr> (s[i := (s ! i)\<lparr>access := True\<rparr>]) = Inr (data (s ! i))"
    using assms by (simp add: operator_call_bound)
qed

text \<open>
  C9. \<open>allocate()\<close>, \<open>deallocate(idx)\<close> and \<open>deallocate(pred)\<close> leave every slot's payload
  as it was, whatever they return. When slot \<open>i\<close> is occupied, every lower slot is
  occupied and no view holds the mutex of slot \<open>i\<close>, then after \<open>deallocate(i)\<close> the next
  \<open>allocate()\<close> claims slot \<open>i\<close> again and the view it returns gives the payload the slot
  held before the release.
\<close>

theorem payload_never_modified:
  "map data (fst (allocate s)) = map data s \<and>
   map data (fst (deallocate idx s)) = map data s \<and>
   map data (fst (deallocate_pred pred sp s)) = map data s \<and>
   (i < length s \<and> inUse (s ! i) \<and> (\<forall>j<i. inUse (s ! j)) \<and> \<not> access (s ! i) \<longrightarrow>
      (\<exists>s'. allocate (fst (deallocate i s)) = (s', Inr (\<lparr>ref = Some i\<rparr>, True)) \<and>
            operator_call \<lparr>ref = Some i\<rparr> s' = Inr (data (s ! i))))"
  using data_allocate [of s] data_deallocate [of idx s] data_deallocate_pred [of pred sp s]
    reclaim_exposes_old_payload [of i s]
  by blast

theorem payload_never_modified_witness:
  "map data (fst (deallocate 1 [\<lparr>data = 10::nat, access = False, inUse = True\<rparr>,
                               \<lparr>data = 20, access = False, inUse = True\<rparr>])) = [10, 20]
   \<and> (\<exists>s'. allocate (fst (deallocate 1 [\<lparr>data = 10::nat, access = False, inUse = True\<rparr>,
                                        \<lparr>data = 20, access = False, inUse = True\<rparr>]))
             = (s', Inr (\<lparr>ref = Some 1\<rparr>, True))
           \<and> operator_call \<lparr>ref = Some 1\<rparr> s' = Inr 20)"
  using payload_never_modified [of "[\<lparr>data = 10::nat, access = False, inUse = True\<rparr>,
                               \<lparr>data = 20, access = False, inUse = True\<rparr>]" 1 "\<lambda>d. True" "\<lambda>i. False" 1]
  by (simp add: less_Suc_eq)

subsection \<open>Iteration\<close>

lemma find_if_drop:
  assumes "n \<le> length s"
  shows "n + find_if P (drop n s) \<le> length s"
    and "n + find_if P (drop n s) < length s \<Longrightarrow> P (s ! (n + find_if P (drop n s)))"
    and "\<And>k. n \<le> k \<Longrightarrow> k < n + find_if P (drop n s) \<Longrightarrow> \<not> P (s ! k)"
proof -
  show le: "n + find_if P (drop n s) \<le> length s"
    using find_if_le [of P "drop n s"] assms by simp
  show "P (s ! (n + find_if P (drop n s)))" if "n + find_if P (drop n s) < length s"
    using find_if_sat [of P "drop n s"] that assms by simp
  show "\<not> P (s ! k)" if "n \<le> k" "k < n + find_if P (drop n s)" for k
  proof -
    have "k - n < find_if P (drop n s)" using that by simp
    from find_if_least [OF this] have "\<not> P (drop n s ! (k - n))" .
    moreover have "n + (k - n) < length s" using that le by simp
    ultimately show ?thesis using that(1) assms by simp
  qed
qed

lemma filter_upt_skip:
  assumes "n \<le> q" "q \<le> m" "\<And>k. n \<le> k \<Longrightarrow> k < q \<Longrightarrow> \<not> P k"
  shows "filter P [n..<m] = filter P [q..<m]"
proof -
  have "[n..<m] = [n..<q] @ [q..<m]"
    using assms(1,2) by (metis le_Suc_ex upt_add_eq_append)
  moreover have "filter P [n..<q] = []"
    using assms(3) by (simp add: filter_empty_conv)
  ultimately show ?thesis by simp
qed

lemma traverse_end: "traverse \<lparr>iter = length s\<rparr> (vault_end s) s = (s, Inr [])"
  by (subst traverse.simps) (simp add: operator_eq_def vault_end_def)

lemma traverse_step:
  assumes "p < length s" "inUse (s ! p)" "\<not> access (s ! p)"
  shows "traverse \<lparr>iter = p\<rparr> (vault_end s) s =
    (case traverse (operator_inc \<lparr>iter = p\<rparr> s) (vault_end s) s of
       (s2, Inl e) \<Rightarrow> (s2, Inl e)
     | (s2, Inr rs) \<Rightarrow> (s2, Inr ((\<lparr>ref = Some p\<rparr>, data (s ! p)) # rs)))"
  using assms
  by (subst traverse.simps)
     (simp add: operator_eq_def vault_end_def operator_star_def ElementView_ctor_free
        ElementView_dtor_def lock_then_unlock operator_call_bound)

lemma traverse_from:
  assumes "\<forall>k<length s. inUse (s ! k) \<longrightarrow> \<not> access (s ! k)"
    and "p \<le> length s" and "p < length s \<longrightarrow> inUse (s ! p)"
  shows "traverse \<lparr>iter = p\<rparr> (vault_end s) s =
    (s, Inr (map (\<lambda>i. (\<lparr>ref = Some i\<rparr>, data (s ! i)))
               (filter (\<lambda>i. inUse (s ! i)) [p..<length s])))"
  using assms(2,3)
proof (induction "length s - p" arbitrary: p rule: less_induct)
  case less
  show ?case
  proof (cases "p = length s")
    case True
    then show ?thesis by (simp add: traverse_end)
  next
    case False
    with less.prems have lt: "p < length s" and occ: "inUse (s ! p)" by simp_all
    have free: "\<not> access (s ! p)" using assms(1) lt occ by simp
    let ?q = "Suc (p + find_if inUse (drop (Suc p) s))"
    have sp: "Suc p \<le> length s" using lt by simp
    have q_le: "?q \<le> length s" using find_if_drop(1) [OF sp, of inUse] by simp
    have q_occ: "?q < length s \<longrightarrow> inUse (s ! ?q)" using find_if_drop(2) [OF sp, of inUse] by simp
    have q_skip: "\<And>k. Suc p \<le> k \<Longrightarrow> k < ?q \<Longrightarrow> \<not> inUse (s ! k)"
      using find_if_drop(3) [OF sp, of _ inUse] by simp
    have ih: "traverse \<lparr>iter = ?q\<rparr> (vault_end s) s =
      (s, Inr (map (\<lambda>i. (\<lparr>ref = Some i\<rparr>, data (s ! i)))
               (filter (\<lambda>i. inUse (s ! i)) [?q..<length s])))"
      using lt q_le q_occ by (intro less.hyps) simp_all
    have "filter (\<lambda>i. inUse (s ! i)) [Suc p..<length s] = filter (\<lambda>i. inUse (s ! i)) [?q..<length s]"
      using q_le q_skip by (intro filter_upt_skip) simp_all
    then have "filter (\<lambda>i. inUse (s ! i)) [p..<length s] = p # filter (\<lambda>i. inUse (s ! i)) [?q..<length s]"
      using lt occ by (simp add: upt_conv_Cons)
    then show ?thesis
      by (simp add: traverse_step [OF lt occ free] operator_inc_def ih)
  qed
qed

text \<open>
  C7. When no view holds the mutex of an occupied slot, a pass from \<open>begin()\<close> to \<open>end()\<close>
  leaves the pool as it was and yields one view for each occupied slot and none for a
  free slot, in ascending order of the index, and calling a yielded view gives the
  payload stored in its slot.
\<close>

theorem traversal_yields_occupied_slots:
  "(\<forall>k<length s. inUse (s ! k) \<longrightarrow> \<not> access (s ! k)) \<longrightarrow>
     traverse (vault_begin s) (vault_end s) s =
       (s, Inr (map (\<lambda>i. (\<lparr>ref = Some i\<rparr>, data (s ! i)))
                  (filter (\<lambda>i. inUse (s ! i)) [0..<length s])))"
proof
  assume free: "\<forall>k<length s. inUse (s ! k) \<longrightarrow> \<not> access (s ! k)"
  let ?q = "find_if inUse s"
  have q_le: "?q \<le> length s" by (rule find_if_le)
  have q_occ: "?q < length s \<longrightarrow> inUse (s ! ?q)" using find_if_sat [of inUse s] by blast
  have "filter (\<lambda>i. inUse (s ! i)) [0..<length s] = filter (\<lambda>i. inUse (s ! i)) [?q..<length s]"
    using q_le find_if_least [of _ inUse s] by (intro filter_upt_skip) simp_all
  then show "traverse (vault_begin s) (vault_end s) s =
       (s, Inr (map (\<lambda>i. (\<lparr>ref = Some i\<rparr>, data (s ! i)))
                  (filter (\<lambda>i. inUse (s ! i)) [0..<length s])))"
    using traverse_from [OF free q_le q_occ] by (simp add: vault_begin_def)
qed

theorem traversal_yields_occupied_slots_witness:
  "traverse (vault_begin [\<lparr>data = 10::nat, access = False, inUse = False\<rparr>,
                          \<lparr>data = 20, access = False, inUse = True\<rparr>,
                          \<lparr>data = 30, access = False, inUse = False\<rparr>,
                          \<lparr>data = 40, access = False, inUse = True\<rparr>])
            (vault_end [\<lparr>data = 10::nat, access = False, inUse = False\<rparr>,
                          \<lparr>data = 20, access = False, inUse = True\<rparr>,
                          \<lparr>data = 30, access = False, inUse = False\<rparr>,
                          \<lparr>data = 40, access = False, inUse = True\<rparr>])
            [\<lparr>data = 10::nat, access = False, inUse = False\<rparr>,
                          \<lparr>data = 20, access = False, inUse = True\<rparr>,
                          \<lparr>data = 30, access = False, inUse = False\<rparr>,
                          \<lparr>data = 40, access = False, inUse = True\<rparr>]
     = ([\<lparr>data = 10::nat, access = False, inUse = False\<rparr>,
                          \<lparr>data = 20, access = False, inUse = True\<rparr>,
                          \<lparr>data = 30, access = False, inUse = False\<rparr>,
                          \<lparr>data = 40, access = False, inUse = True\<rparr>],
        Inr [(\<lparr>ref = Some 1\<rparr>, 20), (\<lparr>ref = Some 3\<rparr>, 40)])"
  using traversal_yields_occupied_slots [of "[\<lparr>data = 10::nat, access = False, inUse = False\<rparr>,
                          \<lparr>data = 20, access = False, inUse = True\<rparr>,
                          \<lparr>data = 30, access = False, inUse = False\<rparr>,
                          \<lparr>data = 40, access = False, inUse = True\<rparr>]"]
  by (simp add: upt_rec All_less_Suc)

subsection \<open>Sequences of calls\<close>

lemma no_view_alive_nth: "no_view_alive s \<longleftrightarrow> (\<forall>k<length s. \<not> access (s ! k))"
  by (simp add: no_view_alive_def list_all_length)

lemma access_set_inUse: "k < length s \<Longrightarrow> access (set_inUse i b s ! k) = access (s ! k)"
  by (cases "k = i") (simp_all add: set_inUse_def)

lemma no_view_alive_set_inUse [simp]: "no_view_alive (set_inUse i b s) = no_view_alive s"
  by (simp add: no_view_alive_nth access_set_inUse)

lemma count_update:
  "i < length xs \<Longrightarrow>
     length (filter P (xs[i := x])) + (if P (xs ! i) then 1 else 0)
       = length (filter P xs) + (if P x then 1 else 0)"
proof (induction xs arbitrary: i)
  case Nil
  then show ?case by simp
next
  case (Cons a xs)
  then show ?case
    by (cases i) auto
qed

lemma occupied_claim:
  "i < length s \<Longrightarrow> \<not> inUse (s ! i) \<Longrightarrow> occupied (set_inUse i True s) = Suc (occupied s)"
  using count_update [of i s inUse "(s ! i)\<lparr>inUse := True\<rparr>"]
  by (simp add: occupied_def set_inUse_def)

lemma occupied_release:
  "i < length s \<Longrightarrow> inUse (s ! i) \<Longrightarrow> Suc (occupied (set_inUse i False s)) = occupied s"
  using count_update [of i s inUse "(s ! i)\<lparr>inUse := False\<rparr>"]
  by (simp add: occupied_def set_inUse_def)

lemma find_if_not_free:
  assumes "find_if_not inUse s \<noteq> length s"
  shows "find_if_not inUse s < length s" and "\<not> inUse (s ! find_if_not inUse s)"
    and "\<forall>j<find_if_not inUse s. inUse (s ! j)"
proof -
  show lt: "find_if_not inUse s < length s"
    using assms find_if_le [of "\<lambda>x. \<not> inUse x" s] by (simp add: find_if_not_def)
  show "\<not> inUse (s ! find_if_not inUse s)"
    using lt find_if_sat [of "\<lambda>x. \<not> inUse x" s] by (simp add: find_if_not_def)
  show "\<forall>j<find_if_not inUse s. inUse (s ! j)"
    using find_if_least [of _ "\<lambda>x. \<not> inUse x" s] by (simp add: find_if_not_def)
qed

lemma allocate_then_drop:
  assumes "no_view_alive s"
  shows "drop_view (allocate s) =
    (if find_if_not inUse s = length s then (s, Inr (ElementView_default, False))
     else (set_inUse (find_if_not inUse s) True s, Inr (\<lparr>ref = Some (find_if_not inUse s)\<rparr>, True)))"
proof (cases "find_if_not inUse s = length s")
  case True
  then have "\<forall>e\<in>set s. inUse e"
    by (simp add: find_if_not_def find_if_end)
  then show ?thesis
    using True by (simp add: allocate_full drop_view_def ElementView_dtor_def ElementView_default_def)
next
  case False
  let ?i = "find_if_not inUse s"
  note fr = find_if_not_free [OF False]
  have free: "\<not> access (s ! ?i)"
    using assms fr(1) by (simp add: no_view_alive_nth)
  have "allocate s = (s[?i := (s ! ?i)\<lparr>access := True, inUse := True\<rparr>], Inr (\<lparr>ref = Some ?i\<rparr>, True))"
    using fr free by (intro allocate_free) simp_all
  moreover have "mutex_unlock ?i (s[?i := (s ! ?i)\<lparr>access := True, inUse := True\<rparr>]) = set_inUse ?i True s"
    using lock_set_unlock [OF fr(1) free, of True] fr(1) by (simp add: set_inUse_def)
  ultimately show ?thesis
    using False by (simp add: drop_view_def ElementView_dtor_def)
qed

lemma deallocate_pred_cases:
  assumes "no_view_alive s"
  shows "(\<exists>j<length s. inUse (s ! j) \<and> deallocate_pred pred sp s = (set_inUse j False s, Inr True))
         \<or> deallocate_pred pred sp s = (s, Inr False)"
proof (cases "\<exists>j. j < length s \<and> inUse (s ! j) \<and> pred (data (s ! j)) \<and> \<not> sp j")
  case True
  then obtain j where j: "j < length s \<and> inUse (s ! j) \<and> pred (data (s ! j)) \<and> \<not> sp j"
    and least: "\<forall>k<j. \<not> (k < length s \<and> inUse (s ! k) \<and> pred (data (s ! k)) \<and> \<not> sp k)"
    using exists_least_iff [of "\<lambda>j. j < length s \<and> inUse (s ! j) \<and> pred (data (s ! j)) \<and> \<not> sp j"]
    by blast
  have "deallocate_pred_from pred sp 0 s
      = (set_inUse j False s, filter (\<lambda>k. inUse (s ! k)) [0..<Suc j], Inr True)"
    using assms j least by (intro deallocate_pred_from_hit) (auto simp: no_view_alive_nth)
  then show ?thesis
    using j by (auto simp: deallocate_pred_def)
next
  case False
  have "deallocate_pred_from pred sp 0 s
      = (s, filter (\<lambda>k. inUse (s ! k)) [0..<length s], Inr False)"
    using assms False by (intro deallocate_pred_from_none) (auto simp: no_view_alive_nth)
  then show ?thesis
    by (simp add: deallocate_pred_def)
qed

lemma view_then_drop:
  assumes "no_view_alive s"
  shows "drop_view1 (view idx s) =
    (if length s \<le> idx then (s, Inl OutOfRange) else (s, Inr \<lparr>ref = Some idx\<rparr>))"
  using assms
  by (auto simp: view_beyond view_inside drop_view1_def no_view_alive_nth ElementView_dtor_def
        lock_then_unlock)

lemma traverse_whole:
  assumes "no_view_alive s"
  shows "traverse (vault_begin s) (vault_end s) s =
       (s, Inr (map (\<lambda>i. (\<lparr>ref = Some i\<rparr>, data (s ! i)))
                  (filter (\<lambda>i. inUse (s ! i)) [0..<length s])))"
proof -
  let ?q = "find_if inUse s"
  have free: "\<forall>k<length s. inUse (s ! k) \<longrightarrow> \<not> access (s ! k)"
    using assms by (simp add: no_view_alive_nth)
  have q_le: "?q \<le> length s" by (rule find_if_le)
  have q_occ: "?q < length s \<longrightarrow> inUse (s ! ?q)" using find_if_sat [of inUse s] by blast
  have "filter (\<lambda>i. inUse (s ! i)) [0..<length s] = filter (\<lambda>i. inUse (s ! i)) [?q..<length s]"
    using q_le find_if_least [of _ inUse s] by (intro filter_upt_skip) simp_all
  then show ?thesis
    using traverse_from [OF free q_le q_occ] by (simp add: vault_begin_def)
qed

lemma step_effect:
  assumes "no_view_alive s" and "step c s = (s', r)"
  shows "no_view_alive s'" and "\<not> ends_run r"
    and "occupied s' + (if deallocate_succeeded r then 1 else 0)
           = occupied s + (if allocate_succeeded r then 1 else 0)"
proof -
  have "no_view_alive s' \<and> \<not> ends_run r \<and>
      occupied s' + (if deallocate_succeeded r then 1 else 0)
           = occupied s + (if allocate_succeeded r then 1 else 0)"
  proof (cases c)
    case Allocate
    show ?thesis
    proof (cases "find_if_not inUse s = length s")
      case True
      with assms Allocate show ?thesis
        by (auto simp: allocate_then_drop ends_run_def)
    next
      case False
      note fr = find_if_not_free [OF False]
      from assms Allocate False show ?thesis
        by (auto simp: allocate_then_drop ends_run_def occupied_claim [OF fr(1,2)])
    qed
  next
    case (Deallocate idx)
    consider "length s \<le> idx" | "idx < length s" "inUse (s ! idx)" | "idx < length s" "\<not> inUse (s ! idx)"
      by linarith
    then show ?thesis
    proof cases
      case 1
      with assms Deallocate show ?thesis
        by (auto simp: deallocate_beyond ends_run_def)
    next
      case 2
      then have "\<not> access (s ! idx)"
        using assms(1) by (simp add: no_view_alive_nth)
      with 2 assms Deallocate show ?thesis
        by (auto simp: deallocate_occupied ends_run_def occupied_release)
    next
      case 3
      then have "\<not> access (s ! idx)"
        using assms(1) by (simp add: no_view_alive_nth)
      with 3 assms Deallocate show ?thesis
        by (auto simp: deallocate_free ends_run_def)
    qed
  next
    case (DeallocatePred pred sp)
    from deallocate_pred_cases [OF assms(1), of pred sp] show ?thesis
    proof
      assume "\<exists>j<length s. inUse (s ! j) \<and> deallocate_pred pred sp s = (set_inUse j False s, Inr True)"
      then obtain j where "j < length s" "inUse (s ! j)"
        "deallocate_pred pred sp s = (set_inUse j False s, Inr True)" by blast
      with assms DeallocatePred show ?thesis
        by (auto simp: ends_run_def occupied_release)
    next
      assume "deallocate_pred pred sp s = (s, Inr False)"
      with assms DeallocatePred show ?thesis
        by (auto simp: ends_run_def)
    qed
  next
    case (View idx)
    with assms show ?thesis
      by (auto simp: view_then_drop ends_run_def split: if_splits)
  next
    case Iterate
    with assms show ?thesis
      by (auto simp: traverse_whole ends_run_def)
  next
    case Capacity
    with assms show ?thesis
      by (auto simp: ends_run_def)
  qed
  then show "no_view_alive s'" and "\<not> ends_run r"
    and "occupied s' + (if deallocate_succeeded r then 1 else 0)
           = occupied s + (if allocate_succeeded r then 1 else 0)"
    by simp_all
qed

lemma run_effect:
  assumes "no_view_alive s" and "run step cs s = (s', rs)"
  shows "no_view_alive s' \<and> length rs = length cs \<and>
    occupied s' + length (filter deallocate_succeeded rs)
      = occupied s + length (filter allocate_succeeded rs)"
  using assms
proof (induction cs arbitrary: s s' rs)
  case Nil
  then show ?case by simp
next
  case (Cons c cs)
  obtain s1 r where st: "step c s = (s1, r)" by (cases "step c s")
  obtain s2 rs' where rn: "run step cs s1 = (s2, rs')" by (cases "run step cs s1")
  note eff = step_effect [OF Cons.prems(1) st]
  have res: "s' = s2" "rs = r # rs'"
    using Cons.prems(2) st rn eff(2) by simp_all
  from Cons.IH [OF eff(1) rn] eff(3) show ?case
    unfolding res by auto
qed

lemma Vault_new_fresh: "no_view_alive (Vault_new ds)" "occupied (Vault_new ds) = 0"
  by (simp_all add: no_view_alive_def Vault_new_def occupied_def list_all_iff filter_empty_conv)

text \<open>
  C2. Starting from a newly constructed pool, after any finite sequence of calls made by
  one thread every call has returned, and the number of occupied slots equals the number
  of \<open>allocate()\<close> calls that returned the flag \<open>true\<close> minus the number of
  \<open>deallocate(idx)\<close> and \<open>deallocate(pred)\<close> calls that returned \<open>true\<close>.
\<close>

theorem occupied_count_balance:
  "length (snd (run step calls (Vault_new ds))) = length calls \<and>
   int (occupied (fst (run step calls (Vault_new ds))))
     = int (length (filter allocate_succeeded (snd (run step calls (Vault_new ds)))))
       - int (length (filter deallocate_succeeded (snd (run step calls (Vault_new ds)))))"
  using run_effect [OF Vault_new_fresh(1), of calls ds
      "fst (run step calls (Vault_new ds))" "snd (run step calls (Vault_new ds))"]
  by (simp add: Vault_new_fresh(2))

text \<open>An example run on a pool of capacity 2: the third \<open>allocate()\<close> finds the pool full,
  the second \<open>deallocate(0)\<close> finds the slot free, \<open>deallocate(5)\<close> is out of range.\<close>

lemma run_example:
  "run step [Allocate, Allocate, Allocate, Deallocate 0, Deallocate 0,
             DeallocatePred (\<lambda>d. True) (\<lambda>i. False), Deallocate 5] (Vault_new [0::nat, 0])
     = ([\<lparr>data = 0, access = False, inUse = False\<rparr>, \<lparr>data = 0, access = False, inUse = False\<rparr>],
        [Allocated (Inr (\<lparr>ref = Some 0\<rparr>, True)), Allocated (Inr (\<lparr>ref = Some 1\<rparr>, True)),
         Allocated (Inr (ElementView_default, False)), Deallocated (Inr True),
         Deallocated (Inr False), Deallocated (Inr True), Deallocated (Inl OutOfRange)])"
  by (simp add: Vault_new_def allocate_unfold allocate_coarse_locked_def find_if_not_def
        ElementView_ctor_def mutex_lock_def set_inUse_def drop_view_def ElementView_dtor_def
        mutex_unlock_def ends_run_def deallocate_def compare_exchange_strong_def
        deallocate_pred_def deallocate_pred_from_step deallocate_pred_from_end logged_def
        ElementView_default_def)

theorem occupied_count_balance_witness:
  "int (occupied (fst (run step [Allocate, Allocate, Allocate, Deallocate 0, Deallocate 0,
             DeallocatePred (\<lambda>d. True) (\<lambda>i. False), Deallocate 5] (Vault_new [0::nat, 0]))))
     = 2 - 2"
  using occupied_count_balance [of "[Allocate, Allocate, Allocate, Deallocate 0, Deallocate 0,
             DeallocatePred (\<lambda>d. True) (\<lambda>i. False), Deallocate 5]" "[0::nat, 0]"]
  unfolding run_example by (simp add: ElementView_default_def)

subsection \<open>The two variants, sequences of calls\<close>

lemma deallocate_pred_coarse_locked_eq:
  assumes "no_view_alive s"
  shows "deallocate_pred_coarse_locked pred s = deallocate_pred pred (\<lambda>i. False) s"
proof (cases "find_if (\<lambda>e. inUse e \<and> pred (data e)) s = length s")
  case True
  then have none: "\<forall>k<length s. \<not> (inUse (s ! k) \<and> pred (data (s ! k)))"
    by (simp add: find_if_end)
  have "deallocate_pred_coarse_locked pred s = (s, Inr False)"
    using True by (subst deallocate_pred_coarse_locked.simps) simp
  moreover have "deallocate_pred pred (\<lambda>i. False) s = (s, Inr False)"
    using none assms by (intro deallocate_pred_no_match) (simp_all add: no_view_alive_nth)
  ultimately show ?thesis by simp
next
  case False
  let ?j = "find_if (\<lambda>e. inUse e \<and> pred (data e)) s"
  have lt: "?j < length s"
    using False find_if_le [of "\<lambda>e. inUse e \<and> pred (data e)" s] by simp
  have hit: "inUse (s ! ?j)" "pred (data (s ! ?j))"
    using find_if_sat [OF lt] by simp_all
  have first: "\<forall>k<?j. \<not> (inUse (s ! k) \<and> pred (data (s ! k)))"
    using find_if_least [of _ "\<lambda>e. inUse e \<and> pred (data e)" s] by blast
  have free: "\<not> access (s ! ?j)"
    using assms lt by (simp add: no_view_alive_nth)
  have "deallocate_pred_coarse_locked pred s = (set_inUse ?j False s, Inr True)"
    using False lt hit free
    by (subst deallocate_pred_coarse_locked.simps)
       (simp add: mutex_lock_def exchange_def lock_set_unlock)
  moreover have "deallocate_pred pred (\<lambda>i. False) s = (set_inUse ?j False s, Inr True)"
    using lt hit first assms
    by (intro deallocate_pred_first_match) (simp_all add: no_view_alive_nth)
  ultimately show ?thesis by simp
qed

lemma under_vault_lock_returns:
  assumes "\<not> vault_access c" "body (storage c) = (s', r)" "r \<noteq> Inl SelfDeadlock"
  shows "under_vault_lock body c = (\<lparr>storage = s', vault_access = False\<rparr>, r)"
  using assms
  by (auto simp: under_vault_lock_def split: sum.splits error.splits)

lemma step_coarse_eq:
  assumes "quiescent c" "without_spurious_failure call" "step call (storage c) = (s', r)"
  shows "step_coarse call c = (\<lparr>storage = s', vault_access = False\<rparr>, r)"
proof -
  from assms(1) have va: "\<not> vault_access c" and nv: "no_view_alive (storage c)"
    by (simp_all add: quiescent_def)
  note eff = step_effect [OF nv assms(3)]
  have c_eq: "c\<lparr>storage := x\<rparr> = \<lparr>storage = x, vault_access = False\<rparr>" for x
    using va by (cases c) simp
  show ?thesis
  proof (cases call)
    case Allocate
    obtain s1 a where al: "allocate (storage c) = (s1, a)" by (cases "allocate (storage c)")
    have r: "r = Allocated (snd (drop_view (s1, a)))" "s' = fst (drop_view (s1, a))"
      using assms(3) Allocate al by (auto split: prod.splits)
    have "a \<noteq> Inl SelfDeadlock"
      using eff(2) r(1) by (auto simp: ends_run_def drop_view_def split: sum.splits prod.splits)
    then have "allocate_coarse c = (\<lparr>storage = s1, vault_access = False\<rparr>, a)"
      unfolding allocate_coarse_def
      using al va by (intro under_vault_lock_returns) (simp_all add: allocate_unfold)
    then show ?thesis
      using Allocate r by (simp split: prod.splits)
  next
    case (Deallocate idx)
    obtain a where de: "deallocate idx (storage c) = (s', a)" and r: "r = Deallocated a"
      using assms(3) Deallocate by (auto split: prod.splits)
    have "a \<noteq> Inl SelfDeadlock"
      using eff(2) r by (auto simp: ends_run_def)
    then have "deallocate_coarse idx c = (\<lparr>storage = s', vault_access = False\<rparr>, a)"
      unfolding deallocate_coarse_def
      using de va by (intro under_vault_lock_returns) (simp_all add: deallocate_unfold)
    then show ?thesis
      using Deallocate r by simp
  next
    case (DeallocatePred pred sp)
    then have sp: "sp = (\<lambda>i. False)"
      using assms(2) by auto
    obtain a where de: "deallocate_pred pred (\<lambda>i. False) (storage c) = (s', a)" and r: "r = Deallocated a"
      using assms(3) DeallocatePred sp by (auto split: prod.splits)
    have "a \<noteq> Inl SelfDeadlock"
      using eff(2) r by (auto simp: ends_run_def)
    then have "deallocate_pred_coarse pred c = (\<lparr>storage = s', vault_access = False\<rparr>, a)"
      unfolding deallocate_pred_coarse_def
      using de va nv by (intro under_vault_lock_returns) (simp_all add: deallocate_pred_coarse_locked_eq)
    then show ?thesis
      using DeallocatePred r by simp
  next
    case (View idx)
    then show ?thesis
      using assms(3) by (auto simp: on_storage_def c_eq split: prod.splits)
  next
    case Iterate
    then show ?thesis
      using assms(3) by (auto simp: on_storage_def c_eq split: prod.splits)
  next
    case Capacity
    then show ?thesis
      using assms(3) va by (cases c) auto
  qed
qed

lemma run_coarse_eq:
  assumes "quiescent c" "list_all without_spurious_failure calls"
  shows "run step_coarse calls c =
    (\<lparr>storage = fst (run step calls (storage c)), vault_access = False\<rparr>,
     snd (run step calls (storage c)))"
  using assms
proof (induction calls arbitrary: c)
  case Nil
  then show ?case by (cases c) (simp add: quiescent_def)
next
  case (Cons call calls)
  obtain s1 r where st: "step call (storage c) = (s1, r)" by (cases "step call (storage c)")
  have nv: "no_view_alive (storage c)" using Cons.prems(1) by (simp add: quiescent_def)
  note eff = step_effect [OF nv st]
  have co: "step_coarse call c = (\<lparr>storage = s1, vault_access = False\<rparr>, r)"
    using Cons.prems st by (intro step_coarse_eq) simp_all
  have q: "quiescent \<lparr>storage = s1, vault_access = False\<rparr>"
    using eff(1) by (simp add: quiescent_def)
  from Cons.IH [OF q] Cons.prems(2) show ?case
    using st co eff(2) by (simp split: prod.splits)
qed

text \<open>
  C8. On a pool of one occupied slot the call sequence \<open>deallocate(pred)\<close>, iteration, with
  a predicate that every payload satisfies, gives different results in the two variants
  when the weak exchange of the \<open>LOCK_FREE\<close> variant fails spuriously: that variant returns
  \<open>false\<close> and the iteration still yields slot 0, the variant with the container-wide mutex
  returns \<open>true\<close> and the iteration yields nothing.
\<close>

theorem variants_differ_on_spurious_failure:
  "run step [DeallocatePred (\<lambda>d. True) (\<lambda>i. True), Iterate]
       [\<lparr>data = 7::nat, access = False, inUse = True\<rparr>]
     = ([\<lparr>data = 7, access = False, inUse = True\<rparr>],
        [Deallocated (Inr False), Iterated (Inr [(\<lparr>ref = Some 0\<rparr>, 7)])])
   \<and> run step_coarse [DeallocatePred (\<lambda>d. True) (\<lambda>i. True), Iterate]
       \<lparr>storage = [\<lparr>data = 7::nat, access = False, inUse = True\<rparr>], vault_access = False\<rparr>
     = (\<lparr>storage = [\<lparr>data = 7, access = False, inUse = False\<rparr>], vault_access = False\<rparr>,
        [Deallocated (Inr True), Iterated (Inr [])])"
  by (simp add: deallocate_pred_def deallocate_pred_from_step deallocate_pred_from_end logged_def
        ends_run_def traverse_whole no_view_alive_def deallocate_pred_coarse_def
        under_vault_lock_def deallocate_pred_coarse_locked_eq deallocate_pred_first_match
        set_inUse_def on_storage_def)

end
